theory Spec2Isabelle
  imports Main "HOL-Library.Word" "HOL-Library.Sublist"
begin

section \<open>BLAKE2Xs: the extendable-output engine of blake2xs.go\<close>

text \<open>
  The file \<^verbatim>\<open>blake2xs.go\<close> builds an extendable-output function on top of the
  package \<^verbatim>\<open>github.com/dchest/blake2s\<close>. That package is not part of the
  repository: its hash is a collaborator, taken here as a parameter (a record of the three
  operations the engine calls). Every theorem below holds for every such collaborator.
\<close>

type_synonym byte = "8 word"

subsection \<open>The types of the imported package\<close>

text \<open>
  \<^verbatim>\<open>blake2s.Tree\<close> and \<^verbatim>\<open>blake2s.Config\<close>, with the field widths of the
  package (\<^verbatim>\<open>NodeOffset uint64\<close> and \<^verbatim>\<open>Size uint8\<close> are visible in the
  conversions of blake2xs.go). A \<^verbatim>\<open>*Tree\<close> inside a \<^verbatim>\<open>blake2s.Config\<close>
  is held by value here (\<open>None\<close> is the nil pointer): this is the configuration as the
  collaborator reads it.
\<close>

record blake2s_Tree =
  Fanout :: "8 word"
  MaxDepth :: "8 word"
  LeafSize :: "32 word"
  NodeOffset :: "64 word"
  NodeDepth :: "8 word"
  InnerHashSize :: "8 word"
  IsLastNode :: bool

record blake2s_Config =
  bSize :: "8 word"
  bKey :: "byte list"
  bSalt :: "byte list"
  bPerson :: "byte list"
  bTree :: "blake2s_Tree option"

text \<open>\<^verbatim>\<open>blake2s.Size\<close>, the digest size of the primitive in bytes.\<close>

definition blake2s_Size :: int where
  "blake2s_Size = 32"

text \<open>
  Errors are values. \<open>blake2s_error\<close> is an error returned by the collaborator,
  \<open>errors_New\<close> one made by \<^verbatim>\<open>errors.New\<close>, \<open>io_EOF\<close> is \<^verbatim>\<open>io.EOF\<close>,
  and \<open>runtime_panic\<close> stands for a Go run-time panic (nil dereference, index out of
  range), which no engine built by \<open>NewXOF\<close> reaches (proved at the end).
\<close>

datatype error =
    blake2s_error string
  | errors_New string
  | io_EOF
  | runtime_panic string

text \<open>
  The collaborator: \<^verbatim>\<open>blake2s.New\<close>, and \<^verbatim>\<open>Write\<close> and \<^verbatim>\<open>Sum\<close> of the
  \<^verbatim>\<open>hash.Hash\<close> it returns. \<open>'h\<close> is the state of a hash instance.
  \<open>hash_Sum h\<close> is the current digest; by the contract of \<^verbatim>\<open>hash.Hash\<close>,
  \<^verbatim>\<open>Sum(b)\<close> returns \<^verbatim>\<open>b\<close> with that digest appended and leaves the instance
  unchanged.
\<close>

record 'h blake2s =
  blake2s_New :: "blake2s_Config \<Rightarrow> string + 'h"
  hash_Write :: "'h \<Rightarrow> byte list \<Rightarrow> 'h \<times> int \<times> error option"
  hash_Sum :: "'h \<Rightarrow> byte list"

subsection \<open>The types of blake2xs.go\<close>

text \<open>\<^verbatim>\<open>const UnknownSize = 1<<16 - 1\<close>\<close>

definition UnknownSize :: int where
  "UnknownSize = push_bit 16 1 - 1"

text \<open>
  \<^verbatim>\<open>type Config struct\<close>. \<open>Tree\<close> is a pointer: \<open>None\<close> is nil, \<open>Some a\<close>
  the address \<open>a\<close> of a \<^verbatim>\<open>blake2s.Tree\<close> in the caller's memory, which is a store
  from addresses to trees.
\<close>

type_synonym addr = nat
type_synonym tree_store = "addr \<Rightarrow> blake2s_Tree"

record Config =
  Size :: "16 word"
  Key :: "byte list"
  Salt :: "byte list"
  Person :: "byte list"
  Tree :: "addr option"

text \<open>
  \<^verbatim>\<open>type xof struct\<close>. The field \<^verbatim>\<open>x\<close> (the output buffer, an array of
  \<^verbatim>\<open>blake2s.Size\<close> bytes) is named \<open>xbuf\<close>. \<open>h0\<close> is a slice: \<open>None\<close> is nil.
  \<open>px\<close> and \<open>left\<close> are Go \<^verbatim>\<open>int\<close>s; they stay within \<open>0..65535\<close>, so they
  are modelled as unbounded integers. The tree of \<open>oc\<close> is allocated by \<open>NewXOF\<close> and
  only the engine holds a pointer to it, so it is stored by value.
\<close>

record 'h xof =
  rh :: 'h
  oc :: blake2s_Config
  h0 :: "byte list option"
  xbuf :: "byte list"
  px :: int
  left :: int

subsection \<open>NewXOF\<close>

text \<open>The effective output length: lines 37 to 40.\<close>

definition outSize :: "Config \<Rightarrow> int" where
  "outSize c = (if uint (Size c) = 0 then UnknownSize else uint (Size c))"

text \<open>\<^verbatim>\<open>uint64(outSize) << 32\<close>\<close>

definition encoded_length :: "Config \<Rightarrow> 64 word" where
  "encoded_length c = push_bit 32 (word_of_int (outSize c))"

text \<open>
  Lines 51 to 57. \<^verbatim>\<open>rc.Tree\<close> is the caller's pointer when it is not nil, and a
  pointer to a fresh tree otherwise; the addition goes through that pointer. The result
  is the store after the addition and the tree \<^verbatim>\<open>rc.Tree\<close> points to.
\<close>

definition root_tree :: "tree_store \<Rightarrow> Config \<Rightarrow> tree_store \<times> blake2s_Tree" where
  "root_tree s c =
    (case Tree c of
       None \<Rightarrow>
         (let t = \<lparr>Fanout = 1, MaxDepth = 1, LeafSize = 0, NodeOffset = 0, NodeDepth = 0,
                    InnerHashSize = 0, IsLastNode = False\<rparr>
          in (s, t\<lparr>NodeOffset := NodeOffset t + encoded_length c\<rparr>))
     | Some a \<Rightarrow>
         (let t = (s a)\<lparr>NodeOffset := NodeOffset (s a) + encoded_length c\<rparr>
          in (s(a := t), t)))"

text \<open>Lines 59 to 73: the initial config for output hashes.\<close>

definition output_config :: "Config \<Rightarrow> blake2s_Config" where
  "output_config c =
    \<lparr>bSize = word_of_int blake2s_Size, bKey = [], bSalt = Salt c, bPerson = Person c,
     bTree = Some \<lparr>Fanout = 0, MaxDepth = 0, LeafSize = word_of_int blake2s_Size,
                   NodeOffset = encoded_length c, NodeDepth = 0,
                   InnerHashSize = word_of_int blake2s_Size, IsLastNode = False\<rparr>\<rparr>"

text \<open>
  \<^verbatim>\<open>func NewXOF(c *Config) (io.ReadWriter, error)\<close>, for a pointer \<^verbatim>\<open>c\<close> that
  is not nil: \<open>c\<close> is the \<^verbatim>\<open>Config\<close> it points to, which \<open>NewXOF\<close> only reads.
  It returns the caller's store of trees as it is afterwards, and the error or the engine.
\<close>

definition NewXOF ::
  "'h blake2s \<Rightarrow> tree_store \<Rightarrow> Config \<Rightarrow> tree_store \<times> (error + 'h xof)" where
  "NewXOF P s c =
    (let (s', t) = root_tree s c;
         rc = \<lparr>bSize = word_of_int blake2s_Size, bKey = Key c, bSalt = Salt c,
               bPerson = Person c, bTree = Some t\<rparr>;
         oc0 = output_config c
     in case blake2s_New P rc of
          Inl err \<Rightarrow> (s', Inl (blake2s_error err))
        | Inr h \<Rightarrow>
            (s', Inr \<lparr>rh = h, oc = oc0, h0 = None, xbuf = replicate 32 0,
                      px = blake2s_Size, left = outSize c\<rparr>))"

subsection \<open>Write\<close>

definition Write ::
  "'h blake2s \<Rightarrow> 'h xof \<Rightarrow> byte list \<Rightarrow> 'h xof \<times> int \<times> error option" where
  "Write P e p =
    (if h0 e \<noteq> None then (e, 0, Some (errors_New ''blake2xs: cannot write after reading''))
     else (case hash_Write P (rh e) p of (h, r) \<Rightarrow> (e\<lparr>rh := h\<rparr>, r)))"

subsection \<open>Read\<close>

text \<open>
  \<^verbatim>\<open>x.rh.Sum(nil)\<close>: appending to the nil slice gives nil again when the digest is
  empty.
\<close>

definition sum_nil :: "byte list \<Rightarrow> byte list option" where
  "sum_nil d = (if d = [] then None else Some d)"

text \<open>The bytes of a slice that may be nil.\<close>

definition bytes_of :: "byte list option \<Rightarrow> byte list" where
  "bytes_of b = (case b of None \<Rightarrow> [] | Some d \<Rightarrow> d)"

text \<open>
  \<^verbatim>\<open>h.Sum(x.x[:0])\<close>: the slice has length 0 and capacity 32, so a digest of at
  most 32 bytes is written over the start of the array, and a longer one goes to a new
  array and leaves \<^verbatim>\<open>x.x\<close> as it was.
\<close>

definition sum_into :: "byte list \<Rightarrow> byte list \<Rightarrow> byte list" where
  "sum_into buf d = (if int (length d) \<le> blake2s_Size then d @ drop (length d) buf else buf)"

text \<open>
  Lines 105 to 117, the body of \<^verbatim>\<open>if x.px >= blake2s.Size\<close>. It returns the engine
  as the body leaves it and the error it returns with, if any.
\<close>

definition refill :: "'h blake2s \<Rightarrow> 'h xof \<Rightarrow> 'h xof \<times> error option" where
  "refill P e =
    (let e1 = (if left e < blake2s_Size
               then e\<lparr>oc := (oc e)\<lparr>bSize := word_of_int (left e)\<rparr>\<rparr> else e)
     in case blake2s_New P (oc e1) of
          Inl err \<Rightarrow> (e1, Some (blake2s_error err))
        | Inr h \<Rightarrow>
            (let h1 = fst (hash_Write P h (bytes_of (h0 e1)));
                 e2 = e1\<lparr>xbuf := sum_into (xbuf e1) (hash_Sum P h1)\<rparr>
             in case bTree (oc e2) of
                  None \<Rightarrow> (e2, Some (runtime_panic ''nil pointer dereference''))
                | Some t \<Rightarrow>
                    (e2\<lparr>oc := (oc e2)\<lparr>bTree := Some (t\<lparr>NodeOffset := NodeOffset t + 1\<rparr>)\<rparr>,
                        px := 0\<rparr>, None)))"

text \<open>
  The loop \<^verbatim>\<open>for i := range p\<close> from index \<open>i\<close> on, with the named result
  \<^verbatim>\<open>nn\<close>. It returns the engine, the buffer \<open>p\<close>, \<^verbatim>\<open>nn\<close> and the error.
\<close>

function read_loop ::
  "'h blake2s \<Rightarrow> 'h xof \<Rightarrow> byte list \<Rightarrow> nat \<Rightarrow> int \<Rightarrow> 'h xof \<times> byte list \<times> int \<times> error option"
  where
  "read_loop P e p i nn =
    (if i < length p then
       (if left e = 0 \<and> i \<noteq> length p then (e, p, nn, Some io_EOF)
        else
          (case (if px e \<ge> blake2s_Size then refill P e else (e, None)) of
             (e1, Some err) \<Rightarrow> (e1, p, nn, Some err)
           | (e1, None) \<Rightarrow>
               (if 0 \<le> px e1 \<and> px e1 < blake2s_Size then
                  read_loop P (e1\<lparr>px := px e1 + 1, left := left e1 - 1\<rparr>)
                    (p[i := xbuf e1 ! nat (px e1)]) (Suc i) (nn + 1)
                else (e1, p, nn, Some (runtime_panic ''index out of range'')))))
     else (e, p, nn, None))"
  by pat_completeness auto
termination
  by (relation "measure (\<lambda>(P, e, p, i, nn). length p - i)") auto

declare read_loop.simps [simp del]

text \<open>\<^verbatim>\<open>func (x *xof) Read(p []byte) (nn int, err error)\<close>\<close>

definition Read ::
  "'h blake2s \<Rightarrow> 'h xof \<Rightarrow> byte list \<Rightarrow> 'h xof \<times> byte list \<times> int \<times> error option" where
  "Read P e p =
    (let e1 = (if h0 e = None then e\<lparr>h0 := sum_nil (hash_Sum P (rh e))\<rparr> else e)
     in read_loop P e1 p 0 0)"

subsection \<open>The output stream, as a function of the number of bytes requested\<close>

text \<open>
  The definitions of this subsection are not in the source. They restate \<open>Read\<close> without
  the buffer \<open>p\<close> and its index, and \<open>Read\<close> is proved equal to them below; the
  properties of \<open>Read\<close> are then proved by induction on the number of bytes.
\<close>

text \<open>Lines 96 to 99: the root digest is taken once.\<close>

definition finalize :: "'h blake2s \<Rightarrow> 'h xof \<Rightarrow> 'h xof" where
  "finalize P e = (if h0 e = None then e\<lparr>h0 := sum_nil (hash_Sum P (rh e))\<rparr> else e)"

text \<open>Lines 104 to 122: one pass of the loop body after the end check.\<close>

definition next_byte :: "'h blake2s \<Rightarrow> 'h xof \<Rightarrow> 'h xof \<times> (error + byte)" where
  "next_byte P e =
    (case (if px e \<ge> blake2s_Size then refill P e else (e, None)) of
       (e1, Some err) \<Rightarrow> (e1, Inl err)
     | (e1, None) \<Rightarrow>
         (if 0 \<le> px e1 \<and> px e1 < blake2s_Size
          then (e1\<lparr>px := px e1 + 1, left := left e1 - 1\<rparr>, Inr (xbuf e1 ! nat (px e1)))
          else (e1, Inl (runtime_panic ''index out of range''))))"

text \<open>The bytes the loop produces when \<open>n\<close> more are requested, and how it ends.\<close>

fun emit :: "'h blake2s \<Rightarrow> 'h xof \<Rightarrow> nat \<Rightarrow> 'h xof \<times> byte list \<times> error option" where
  "emit P e 0 = (e, [], None)"
| "emit P e (Suc n) =
    (if left e = 0 then (e, [], Some io_EOF)
     else (case next_byte P e of
             (e1, Inl err) \<Rightarrow> (e1, [], Some err)
           | (e1, Inr b) \<Rightarrow> (case emit P e1 n of (e2, bs, r) \<Rightarrow> (e2, b # bs, r))))"

text \<open>The state invariant of the engine.\<close>

definition xof_inv :: "'h xof \<Rightarrow> bool" where
  "xof_inv e = (0 \<le> px e \<and> px e \<le> blake2s_Size \<and> 0 \<le> left e)"

text \<open>An engine as \<open>NewXOF\<close> builds it: the invariant, and the output config has its tree.\<close>

definition xof_wf :: "'h xof \<Rightarrow> bool" where
  "xof_wf e = (xof_inv e \<and> bTree (oc e) \<noteq> None)"

subsection \<open>Callers\<close>

text \<open>
  A caller that reads into the buffers \<open>ps\<close> one after the other, whatever each call
  returns, and keeps the bytes each call delivered (\<^verbatim>\<open>p[:nn]\<close>).
\<close>

fun read_chunks :: "'h blake2s \<Rightarrow> 'h xof \<Rightarrow> byte list list \<Rightarrow> 'h xof \<times> byte list" where
  "read_chunks P e [] = (e, [])"
| "read_chunks P e (p # ps) =
    (case Read P e p of
       (e1, p1, nn, err) \<Rightarrow>
         (case read_chunks P e1 ps of (e2, out) \<Rightarrow> (e2, take (nat nn) p1 @ out)))"

text \<open>A caller that makes any sequence of calls; the engine after the last one.\<close>

datatype call = call_Write "byte list" | call_Read "byte list"

fun run_calls :: "'h blake2s \<Rightarrow> 'h xof \<Rightarrow> call list \<Rightarrow> 'h xof" where
  "run_calls P e [] = e"
| "run_calls P e (call_Write p # cs) = run_calls P (fst (Write P e p)) cs"
| "run_calls P e (call_Read p # cs) = run_calls P (fst (Read P e p)) cs"

text \<open>
  What a configuration says: its fields, and the tree its pointer leads to in the store.
\<close>

definition config_value ::
  "tree_store \<Rightarrow> Config \<Rightarrow> 16 word \<times> byte list \<times> byte list \<times> byte list \<times> blake2s_Tree option"
  where
  "config_value s c = (Size c, Key c, Salt c, Person c, map_option s (Tree c))"

text \<open>
  The whole procedure: construct an engine, write the message, read into a buffer of
  \<open>n\<close> bytes. The result is the constructor's error, or what \<open>Write\<close> returned and
  what \<open>Read\<close> returned with the bytes it delivered.
\<close>

definition xof_run ::
  "'h blake2s \<Rightarrow> tree_store \<Rightarrow> Config \<Rightarrow> byte list \<Rightarrow> nat
     \<Rightarrow> error + (int \<times> error option) \<times> (byte list \<times> int \<times> error option)" where
  "xof_run P s c msg n =
    (case snd (NewXOF P s c) of
       Inl err \<Rightarrow> Inl err
     | Inr e \<Rightarrow>
         (case Write P e msg of
            (e1, w) \<Rightarrow>
              (case Read P e1 (replicate n 0) of
                 (e2, p, nn, err) \<Rightarrow> Inr (w, (take (nat nn) p, nn, err)))))"

definition output_bytes ::
  "error + (int \<times> error option) \<times> (byte list \<times> int \<times> error option) \<Rightarrow> byte list" where
  "output_bytes r = (case r of Inl err \<Rightarrow> [] | Inr (w, (bs, nn, err)) \<Rightarrow> bs)"

subsection \<open>Two concrete collaborators and test data\<close>

text \<open>
  The theorems hold for every collaborator. To apply them to concrete inputs, two
  collaborators are defined here; neither is BLAKE2s and nothing is claimed about them.
  \<open>test_hash\<close> refuses a configuration with an oversized field and returns
  \<open>bSize\<close> bytes that depend on every field the engine sets and on the data written.
  \<open>weak_hash\<close> also returns \<open>bSize\<close> bytes, but they depend on the data only: it
  ignores the tree parameters.
\<close>

definition test_digest :: "blake2s_Config \<Rightarrow> byte list \<Rightarrow> byte list" where
  "test_digest c d =
    map (\<lambda>i. of_nat i * 7 + of_nat (length d) + sum_list d + bSize c +
             sum_list (bSalt c) + sum_list (bPerson c) +
             (case bTree c of
                None \<Rightarrow> 0
              | Some t \<Rightarrow> ucast (NodeOffset t) + ucast (drop_bit 32 (NodeOffset t)) + Fanout t))
      [0..<unat (bSize c)]"

definition test_hash :: "(blake2s_Config \<times> byte list) blake2s" where
  "test_hash =
    \<lparr>blake2s_New = (\<lambda>c. if 32 < unat (bSize c) \<or> 32 < length (bKey c) \<or> 8 < length (bSalt c)
                            \<or> 8 < length (bPerson c)
                         then Inl ''blake2s: invalid configuration'' else Inr (c, bKey c)),
     hash_Write = (\<lambda>h p. ((fst h, snd h @ p), int (length p), None)),
     hash_Sum = (\<lambda>h. test_digest (fst h) (snd h))\<rparr>"

definition weak_hash :: "(blake2s_Config \<times> byte list) blake2s" where
  "weak_hash =
    \<lparr>blake2s_New = (\<lambda>c. Inr (c, bKey c)),
     hash_Write = (\<lambda>h p. ((fst h, snd h @ p), int (length p), None)),
     hash_Sum = (\<lambda>h. map (\<lambda>i. of_nat i + sum_list (snd h)) [0..<unat (bSize (fst h))])\<rparr>"

definition test_store :: tree_store where
  "test_store = (\<lambda>a. \<lparr>Fanout = 1, MaxDepth = 1, LeafSize = 0, NodeOffset = 5, NodeDepth = 0,
                         InnerHashSize = 0, IsLastNode = False\<rparr>)"

definition test_config :: "16 word \<Rightarrow> addr option \<Rightarrow> Config" where
  "test_config n t = \<lparr>Size = n, Key = [7], Salt = [1], Person = [2], Tree = t\<rparr>"

text \<open>
  The engine \<open>NewXOF\<close> builds for the declared size \<open>n\<close> (no tree), after the message
  \<^verbatim>\<open>"abc"\<close> was written to it.
\<close>

definition test_engine :: "16 word \<Rightarrow> (blake2s_Config \<times> byte list) xof" where
  "test_engine n =
     fst (Write test_hash (projr (snd (NewXOF test_hash test_store (test_config n None))))
            [97, 98, 99])"

section \<open>Read as a stream\<close>

lemma refill_frame:
  "refill P e = (e1, r) \<Longrightarrow> rh e1 = rh e \<and> h0 e1 = h0 e \<and> left e1 = left e"
  by (auto simp: refill_def Let_def split: sum.splits option.splits if_splits)

lemma sum_into_idem: "sum_into (sum_into buf d) d = sum_into buf d"
  by (simp add: sum_into_def)

text \<open>A refill that fails fails again in the same way, and leaves the engine as it is.\<close>

lemma refill_stuck:
  "refill P e = (e1, Some err) \<Longrightarrow> refill P e1 = (e1, Some err)"
  by (auto simp: refill_def Let_def sum_into_idem split: sum.splits option.splits if_splits)

lemma refill_px_err: "refill P e = (e1, Some err) \<Longrightarrow> px e1 = px e"
  by (auto simp: refill_def Let_def split: sum.splits option.splits if_splits)

lemma refill_px_ok: "refill P e = (e1, None) \<Longrightarrow> px e1 = 0"
  by (auto simp: refill_def Let_def split: sum.splits option.splits if_splits)

lemma next_byte_frame:
  "next_byte P e = (e1, r) \<Longrightarrow> rh e1 = rh e \<and> h0 e1 = h0 e"
  by (auto simp: next_byte_def split: prod.splits option.splits if_splits dest: refill_frame)

lemma next_byte_left_Inr:
  "next_byte P e = (e1, Inr b) \<Longrightarrow> left e1 = left e - 1"
  by (auto simp: next_byte_def split: prod.splits option.splits if_splits dest: refill_frame)

lemma next_byte_left_Inl:
  "next_byte P e = (e1, Inl err) \<Longrightarrow> left e1 = left e"
  by (auto simp: next_byte_def split: prod.splits option.splits if_splits dest: refill_frame)

lemma next_byte_not_EOF:
  "next_byte P e = (e1, Inl err) \<Longrightarrow> err \<noteq> io_EOF"
  by (auto simp: next_byte_def refill_def Let_def
      split: prod.splits option.splits if_splits sum.splits)

lemma next_byte_stuck:
  "next_byte P e = (e1, Inl err) \<Longrightarrow> next_byte P e1 = (e1, Inl err)"
  apply (auto simp: next_byte_def split: prod.splits option.splits if_splits)
  apply (auto dest: refill_stuck refill_px_err refill_px_ok simp: blake2s_Size_def)
  done

lemma next_byte_px:
  "next_byte P e = (e1, r) \<Longrightarrow> 0 \<le> px e \<Longrightarrow> px e \<le> blake2s_Size \<Longrightarrow>
     0 \<le> px e1 \<and> px e1 \<le> blake2s_Size"
  by (auto simp: next_byte_def split: prod.splits option.splits if_splits
      dest: refill_px_err refill_px_ok)

lemma emit_length: "emit P e n = (e', bs, r) \<Longrightarrow> length bs \<le> n"
  by (induction n arbitrary: e e' bs r) (auto split: if_splits prod.splits sum.splits)

lemma emit_frame:
  "emit P e n = (e', bs, r) \<Longrightarrow> rh e' = rh e \<and> h0 e' = h0 e"
  by (induction n arbitrary: e e' bs r)
     (auto split: if_splits prod.splits sum.splits dest: next_byte_frame)

lemma emit_left:
  "emit P e n = (e', bs, r) \<Longrightarrow> left e' = left e - int (length bs)"
  by (induction n arbitrary: e e' bs r)
     (auto split: if_splits prod.splits sum.splits dest: next_byte_left_Inr next_byte_left_Inl)

lemma emit_full_iff:
  "emit P e n = (e', bs, r) \<Longrightarrow> r = None \<longleftrightarrow> length bs = n"
  by (induction n arbitrary: e e' bs r) (auto split: if_splits prod.splits sum.splits)

text \<open>
  The loop of \<open>Read\<close> from index \<open>i\<close> on writes the bytes of \<open>emit\<close> into \<open>p\<close> from
  \<open>i\<close> on and counts them.
\<close>

lemma read_loop_emit:
  "i \<le> length p \<Longrightarrow> read_loop P e p i nn =
     (case emit P e (length p - i) of
        (e', bs, r) \<Rightarrow> (e', take i p @ bs @ drop (i + length bs) p, nn + int (length bs), r))"
proof (induction "length p - i" arbitrary: e p i nn)
  case 0
  then show ?case by (simp add: read_loop.simps)
next
  case (Suc n)
  then have lt: "i < length p" and n: "n = length p - Suc i" by auto
  show ?case
  proof (cases "left e = 0")
    case True
    with lt Suc(2)[symmetric] show ?thesis by (simp add: read_loop.simps)
  next
    case False
    obtain e1 r1 where nb: "next_byte P e = (e1, r1)" by (cases "next_byte P e")
    show ?thesis
    proof (cases r1)
      case (Inl err)
      with nb False lt Suc(2)[symmetric] show ?thesis
        by (subst read_loop.simps)
           (auto simp: next_byte_def split: prod.splits option.splits if_splits)
    next
      case (Inr b)
      from nb Inr obtain e0 where
        e0: "(if px e \<ge> blake2s_Size then refill P e else (e, None)) = (e0, None)"
        and ok: "0 \<le> px e0 \<and> px e0 < blake2s_Size"
        and e1: "e1 = e0\<lparr>px := px e0 + 1, left := left e0 - 1\<rparr>"
        and b: "b = xbuf e0 ! nat (px e0)"
        by (auto simp: next_byte_def split: prod.splits option.splits if_splits)
      have step: "read_loop P e p i nn = read_loop P e1 (p[i := b]) (Suc i) (nn + 1)"
        using lt False e0 ok e1 b by (subst read_loop.simps) (simp del: One_nat_def)
      obtain e2 bs r where em: "emit P e1 n = (e2, bs, r)" by (cases "emit P e1 n") auto
      have rest: "read_loop P e1 (p[i := b]) (Suc i) (nn + 1) =
          (e2, take (Suc i) (p[i := b]) @ bs @ drop (Suc i + length bs) (p[i := b]),
           nn + 1 + int (length bs), r)"
        using Suc(1)[of "p[i := b]" "Suc i" e1 "nn + 1"] n lt em by simp
      have pre: "take (Suc i) (p[i := b]) = take i p @ [b]"
        using lt by (simp add: take_Suc_conv_app_nth)
      have post: "drop (Suc i + length bs) (p[i := b]) = drop (i + length (b # bs)) p"
        by simp
      show ?thesis
        using step rest pre post nb Inr False em Suc(2)[symmetric] by simp
    qed
  qed
qed

lemma Read_emit:
  "Read P e p =
    (case emit P (finalize P e) (length p) of
       (e', bs, r) \<Rightarrow> (e', bs @ drop (length bs) p, int (length bs), r))"
  by (simp add: Read_def finalize_def read_loop_emit Let_def split: prod.splits)

lemma finalize_fields:
  "px (finalize P e) = px e" "left (finalize P e) = left e" "rh (finalize P e) = rh e"
  "oc (finalize P e) = oc e" "xbuf (finalize P e) = xbuf e"
  by (simp_all add: finalize_def)

lemma finalize_emit:
  "emit P (finalize P e) n = (e', bs, r) \<Longrightarrow> finalize P e' = e'"
  by (drule emit_frame) (auto simp: finalize_def sum_nil_def)

lemma Read_cases:
  assumes "Read P e p = (e', p', nn, err)"
  obtains bs where "emit P (finalize P e) (length p) = (e', bs, err)"
    and "p' = bs @ drop (length bs) p" and "nn = int (length bs)" and "length bs \<le> length p"
proof -
  obtain e2 bs r where em: "emit P (finalize P e) (length p) = (e2, bs, r)"
    by (cases "emit P (finalize P e) (length p)") auto
  with assms have "e' = e2" "p' = bs @ drop (length bs) p" "nn = int (length bs)" "err = r"
    by (simp_all add: Read_emit)
  moreover have "length bs \<le> length p" using em by (rule emit_length)
  ultimately show thesis using em that by simp
qed

lemma Read_frame:
  "Read P e p = (e', r) \<Longrightarrow> rh e' = rh e \<and> (h0 e \<noteq> None \<longrightarrow> h0 e' = h0 e)
     \<and> (h0 e = None \<longrightarrow> h0 e' = sum_nil (hash_Sum P (rh e)))"
proof -
  assume rd: "Read P e p = (e', r)"
  obtain p' nn err where "r = (p', nn, err)" by (cases r) auto
  with rd obtain bs where "emit P (finalize P e) (length p) = (e', bs, err)"
    by (auto elim: Read_cases)
  from emit_frame[OF this] show ?thesis by (auto simp: finalize_def)
qed

text \<open>Once the loop has returned an error, it returns it again and delivers nothing.\<close>

lemma emit_stuck:
  "emit P e n = (e', bs, Some err) \<Longrightarrow> emit P e' (Suc m) = (e', [], Some err)"
proof (induction n arbitrary: e e' bs)
  case 0
  then show ?case by simp
next
  case (Suc n)
  show ?case
  proof (cases "left e = 0")
    case True
    with Suc.prems show ?thesis by auto
  next
    case False
    obtain e1 r1 where nb: "next_byte P e = (e1, r1)" by (cases "next_byte P e")
    show ?thesis
    proof (cases r1)
      case (Inl er)
      with nb False Suc.prems have "e' = e1" "err = er" by auto
      moreover have "left e1 \<noteq> 0" using nb Inl False by (auto dest: next_byte_left_Inl)
      moreover have "next_byte P e1 = (e1, Inl er)" using nb Inl by (auto dest: next_byte_stuck)
      ultimately show ?thesis by simp
    next
      case (Inr b)
      with nb False Suc.prems obtain bs' where "emit P e1 n = (e', bs', Some err)"
        by (auto split: prod.splits)
      then show ?thesis by (rule Suc.IH)
    qed
  qed
qed

lemma emit_after_error:
  assumes "emit P e n = (e1, bs, Some err)" and "emit P e1 m = (e2, out, r)"
  shows "e2 = e1 \<and> out = []"
proof (cases m)
  case 0
  with assms(2) show ?thesis by simp
next
  case (Suc k)
  with emit_stuck[OF assms(1), of k] assms(2) show ?thesis by simp
qed

text \<open>Requesting \<open>n + m\<close> bytes is requesting \<open>n\<close> and then, if that went well, \<open>m\<close>.\<close>

lemma emit_add:
  "emit P e (n + m) =
    (case emit P e n of
       (e1, bs1, None) \<Rightarrow> (case emit P e1 m of (e2, bs2, r) \<Rightarrow> (e2, bs1 @ bs2, r))
     | (e1, bs1, Some err) \<Rightarrow> (e1, bs1, Some err))"
  by (induction n arbitrary: e) (auto split: if_splits prod.splits sum.splits option.splits)

lemma emit_prefix:
  assumes "n \<le> m"
  shows "prefix (fst (snd (emit P e n))) (fst (snd (emit P e m)))"
proof -
  from assms obtain k where m: "m = n + k" by (auto simp: le_iff_add)
  show ?thesis unfolding m
    by (simp add: emit_add split: prod.splits option.splits)
qed

section \<open>Helper lemmas for the claims\<close>

lemma emit_EOF_iff:
  "emit P e n = (e', bs, r) \<Longrightarrow> r = Some io_EOF \<longleftrightarrow> length bs < n \<and> left e' = 0"
proof (induction n arbitrary: e e' bs r)
  case 0
  then show ?case by auto
next
  case (Suc n)
  show ?case
  proof (cases "left e = 0")
    case True
    with Suc.prems show ?thesis by auto
  next
    case False
    obtain e1 r1 where nb: "next_byte P e = (e1, r1)" by (cases "next_byte P e")
    show ?thesis
    proof (cases r1)
      case (Inl er)
      with nb False Suc.prems have "e' = e1" "r = Some er" "bs = []" by auto
      moreover have "left e1 \<noteq> 0" using nb Inl False by (auto dest: next_byte_left_Inl)
      moreover have "er \<noteq> io_EOF" using nb Inl by (auto dest: next_byte_not_EOF)
      ultimately show ?thesis by simp
    next
      case (Inr b)
      with nb False Suc.prems obtain bs' where em: "emit P e1 n = (e', bs', r)" and "bs = b # bs'"
        by (auto split: prod.splits)
      with Suc.IH[OF em] show ?thesis by simp
    qed
  qed
qed

lemma emit_px:
  "emit P e n = (e', bs, r) \<Longrightarrow> 0 \<le> px e \<Longrightarrow> px e \<le> blake2s_Size \<Longrightarrow>
     0 \<le> px e' \<and> px e' \<le> blake2s_Size"
proof (induction n arbitrary: e e' bs r)
  case 0
  then show ?case by simp
next
  case (Suc n)
  show ?case
  proof (cases "left e = 0")
    case True
    with Suc.prems show ?thesis by auto
  next
    case False
    obtain e1 r1 where nb: "next_byte P e = (e1, r1)" by (cases "next_byte P e")
    have px1: "0 \<le> px e1 \<and> px e1 \<le> blake2s_Size"
      using next_byte_px[OF nb] Suc.prems by simp
    show ?thesis
    proof (cases r1)
      case (Inl er)
      with nb False Suc.prems px1 show ?thesis by auto
    next
      case (Inr b)
      with nb False Suc.prems obtain bs' where em: "emit P e1 n = (e', bs', r)"
        by (auto split: prod.splits)
      from Suc.IH[OF em] px1 show ?thesis by simp
    qed
  qed
qed

lemma emit_left_nonneg:
  "emit P e n = (e', bs, r) \<Longrightarrow> 0 \<le> left e \<Longrightarrow> 0 \<le> left e'"
proof (induction n arbitrary: e e' bs r)
  case 0
  then show ?case by simp
next
  case (Suc n)
  show ?case
  proof (cases "left e = 0")
    case True
    with Suc.prems show ?thesis by auto
  next
    case False
    obtain e1 r1 where nb: "next_byte P e = (e1, r1)" by (cases "next_byte P e")
    show ?thesis
    proof (cases r1)
      case (Inl er)
      with nb False Suc.prems show ?thesis by (auto dest: next_byte_left_Inl)
    next
      case (Inr b)
      with nb False Suc.prems obtain bs' where em: "emit P e1 n = (e', bs', r)"
        by (auto split: prod.splits)
      have "0 \<le> left e1" using nb Inr False Suc.prems(2) by (auto dest: next_byte_left_Inr)
      with Suc.IH[OF em] show ?thesis by simp
    qed
  qed
qed

lemma Write_cases:
  "Write P e p = (e', n, r) \<Longrightarrow> px e' = px e \<and> left e' = left e \<and> h0 e' = h0 e \<and> oc e' = oc e"
  by (auto simp: Write_def split: if_splits prod.splits)

lemma Write_finalized:
  "h0 e \<noteq> None \<Longrightarrow>
     Write P e p = (e, 0, Some (errors_New ''blake2xs: cannot write after reading''))"
  by (simp add: Write_def)

lemma run_calls_finalized:
  "h0 e \<noteq> None \<Longrightarrow> h0 (run_calls P e cs) \<noteq> None \<and> rh (run_calls P e cs) = rh e"
proof (induction cs arbitrary: e)
  case Nil
  then show ?case by simp
next
  case (Cons c cs)
  show ?case
  proof (cases c)
    case (call_Write p)
    with Cons show ?thesis by (simp add: Write_finalized)
  next
    case (call_Read p)
    obtain e' r where rd: "Read P e p = (e', r)" by (cases "Read P e p")
    from Read_frame[OF rd] Cons.prems have "h0 e' \<noteq> None" "rh e' = rh e" by auto
    with Cons.IH[of e'] rd call_Read show ?thesis by simp
  qed
qed

lemma run_calls_writes:
  "h0 e = None \<Longrightarrow> h0 (run_calls P e (map call_Write ws)) = None"
proof (induction ws arbitrary: e)
  case Nil
  then show ?case by simp
next
  case (Cons w ws)
  obtain e' n r where wr: "Write P e w = (e', n, r)" by (cases "Write P e w") auto
  from Write_cases[OF wr] Cons.prems have "h0 e' = None" by simp
  from Cons.IH[OF this] wr show ?case by simp
qed

lemma read_chunks_emit:
  "read_chunks P e ps = (e', out) \<Longrightarrow>
     \<exists>r. emit P (finalize P e) (length (concat ps)) = (if ps = [] then finalize P e else e', out, r)"
proof (induction ps arbitrary: e e' out)
  case Nil
  then show ?case by simp
next
  case (Cons p ps)
  obtain e1 p1 nn err where rd: "Read P e p = (e1, p1, nn, err)"
    by (cases "Read P e p") auto
  then obtain bs where em: "emit P (finalize P e) (length p) = (e1, bs, err)"
    and p1: "p1 = bs @ drop (length bs) p" and nn: "nn = int (length bs)"
    by (rule Read_cases)
  obtain e2 out' where rc: "read_chunks P e1 ps = (e2, out')"
    by (cases "read_chunks P e1 ps") auto
  from Cons.prems rd rc p1 nn have res: "e' = e2" "out = bs @ out'" by simp_all
  have fin: "finalize P e1 = e1" using em by (rule finalize_emit)
  from Cons.IH[OF rc] fin obtain r where
    em2: "emit P e1 (length (concat ps)) = (if ps = [] then e1 else e2, out', r)" by auto
  have e2: "ps = [] \<Longrightarrow> e2 = e1" using rc by simp
  show ?case
  proof (cases err)
    case None
    with em em2 res e2 show ?thesis by (auto simp: emit_add)
  next
    case (Some er)
    with emit_after_error[OF _ em2] em have "(if ps = [] then e1 else e2) = e1" "out' = []"
      by simp_all
    with Some em res e2 show ?thesis by (auto simp: emit_add split: if_splits)
  qed
qed

lemma root_tree_value:
  "config_value s1 c1 = config_value s2 c2 \<Longrightarrow> snd (root_tree s1 c1) = snd (root_tree s2 c2)"
  by (auto simp: config_value_def root_tree_def encoded_length_def outSize_def Let_def
      split: option.splits)

lemma NewXOF_value:
  "config_value s1 c1 = config_value s2 c2 \<Longrightarrow> snd (NewXOF P s1 c1) = snd (NewXOF P s2 c2)"
proof -
  assume v: "config_value s1 c1 = config_value s2 c2"
  have t: "snd (root_tree s1 c1) = snd (root_tree s2 c2)" using v by (rule root_tree_value)
  have f: "Size c1 = Size c2" "Key c1 = Key c2" "Salt c1 = Salt c2" "Person c1 = Person c2"
    using v by (simp_all add: config_value_def)
  then have "output_config c1 = output_config c2" "outSize c1 = outSize c2"
    by (simp_all add: output_config_def encoded_length_def outSize_def)
  with t f show ?thesis
    by (cases "root_tree s1 c1"; cases "root_tree s2 c2")
       (simp add: NewXOF_def Let_def split: sum.splits)
qed

lemma NewXOF_store:
  "fst (NewXOF P s c) =
    (case Tree c of None \<Rightarrow> s
     | Some a \<Rightarrow> s(a := (s a)\<lparr>NodeOffset := NodeOffset (s a) + encoded_length c\<rparr>))"
  by (auto simp: NewXOF_def root_tree_def Let_def split: prod.splits sum.splits option.splits)

lemma outSize_bounds: "0 < outSize c \<and> outSize c < 65536"
proof -
  have "uint (Size c) < 2 ^ 16" using uint_bounded[of "Size c"] by simp
  moreover have "0 \<le> uint (Size c)" by simp
  ultimately show ?thesis unfolding outSize_def UnknownSize_def by (simp, linarith)
qed

lemma unat_encoded_length: "unat (encoded_length c) = nat (outSize c) * 2 ^ 32"
proof -
  have b: "0 < outSize c \<and> outSize c < 65536" by (rule outSize_bounds)
  have "unat (word_of_int (outSize c) :: 64 word) = nat (outSize c)"
    using b by (simp add: unat_eq_nat_uint uint_word_of_int take_bit_eq_mod)
  then have "unat (encoded_length c) = take_bit 64 (push_bit 32 (nat (outSize c)))"
    unfolding encoded_length_def by (simp only: unsigned_push_bit_eq) simp
  also have "\<dots> = (nat (outSize c) * 2 ^ 32) mod 2 ^ 64"
    by (simp only: take_bit_eq_mod push_bit_eq_mult)
  also have "\<dots> = nat (outSize c) * 2 ^ 32"
  proof -
    have "nat (outSize c) < 65536" using b by linarith
    then show ?thesis by (intro mod_less) simp
  qed
  finally show ?thesis .
qed

lemma encoded_length_inj:
  "encoded_length c1 = encoded_length c2 \<Longrightarrow> outSize c1 = outSize c2"
proof -
  assume "encoded_length c1 = encoded_length c2"
  then have "unat (encoded_length c1) = unat (encoded_length c2)" by simp
  then have "nat (outSize c1) = nat (outSize c2)" by (simp add: unat_encoded_length)
  with outSize_bounds[of c1] outSize_bounds[of c2] show ?thesis by linarith
qed

lemma output_bytes_xof_run:
  "output_bytes (xof_run P s c msg n) =
    (case snd (NewXOF P s c) of Inl err \<Rightarrow> []
     | Inr e \<Rightarrow> fst (snd (emit P (finalize P (fst (Write P e msg))) n)))"
  by (simp add: output_bytes_def xof_run_def Read_emit split: sum.splits prod.splits)


lemma refill_no_panic:
  "bTree (oc e) \<noteq> None \<Longrightarrow> refill P e = (e1, r) \<Longrightarrow>
     r \<noteq> Some (runtime_panic m) \<and> bTree (oc e1) \<noteq> None"
  by (auto simp: refill_def Let_def split: sum.splits option.splits if_splits)

lemma next_byte_no_panic:
  assumes "0 \<le> px e" and "bTree (oc e) \<noteq> None" and "next_byte P e = (e1, r)"
  shows "r \<noteq> Inl (runtime_panic m) \<and> bTree (oc e1) \<noteq> None"
proof (cases "px e \<ge> blake2s_Size")
  case True
  obtain e2 r2 where rf: "refill P e = (e2, r2)" by (cases "refill P e")
  from refill_no_panic[OF assms(2) rf] have np: "r2 \<noteq> Some (runtime_panic m)"
    and tr: "bTree (oc e2) \<noteq> None" by simp_all
  show ?thesis
  proof (cases r2)
    case None
    with rf have "px e2 = 0" by (auto dest: refill_px_ok)
    with assms(3) True rf None tr show ?thesis
      by (auto simp: next_byte_def blake2s_Size_def)
  next
    case (Some err)
    with assms(3) True rf np tr show ?thesis by (auto simp: next_byte_def)
  qed
next
  case False
  with assms show ?thesis by (auto simp: next_byte_def)
qed

lemma emit_no_panic:
  "emit P e n = (e', bs, r) \<Longrightarrow> 0 \<le> px e \<Longrightarrow> px e \<le> blake2s_Size \<Longrightarrow>
     bTree (oc e) \<noteq> None \<Longrightarrow> r \<noteq> Some (runtime_panic m) \<and> bTree (oc e') \<noteq> None"
proof (induction n arbitrary: e e' bs r)
  case 0
  then show ?case by simp
next
  case (Suc n)
  show ?case
  proof (cases "left e = 0")
    case True
    with Suc.prems show ?thesis by auto
  next
    case False
    obtain e1 r1 where nb: "next_byte P e = (e1, r1)" by (cases "next_byte P e")
    have np: "r1 \<noteq> Inl (runtime_panic m) \<and> bTree (oc e1) \<noteq> None"
      using next_byte_no_panic[OF Suc.prems(2) Suc.prems(4) nb] .
    have px1: "0 \<le> px e1 \<and> px e1 \<le> blake2s_Size"
      using next_byte_px[OF nb] Suc.prems by simp
    show ?thesis
    proof (cases r1)
      case (Inl er)
      with nb False Suc.prems np show ?thesis by auto
    next
      case (Inr b)
      with nb False Suc.prems obtain bs' where em: "emit P e1 n = (e', bs', r)"
        by (auto split: prod.splits)
      from Suc.IH[OF em] px1 np show ?thesis by simp
    qed
  qed
qed

lemma Read_wf:
  assumes "xof_wf e" and "Read P e p = (e', p', nn, err)"
  shows "xof_wf e' \<and> err \<noteq> Some (runtime_panic m)"
proof -
  from assms(2) obtain bs where em: "emit P (finalize P e) (length p) = (e', bs, err)"
    by (rule Read_cases)
  have "0 \<le> px e' \<and> px e' \<le> blake2s_Size"
    using emit_px[OF em] assms(1) by (simp add: finalize_fields xof_wf_def xof_inv_def)
  moreover have "0 \<le> left e'"
    using emit_left_nonneg[OF em] assms(1) by (simp add: finalize_fields xof_wf_def xof_inv_def)
  moreover have "err \<noteq> Some (runtime_panic m) \<and> bTree (oc e') \<noteq> None"
    using emit_no_panic[OF em] assms(1) by (simp add: finalize_fields xof_wf_def xof_inv_def)
  ultimately show ?thesis by (simp add: xof_wf_def xof_inv_def)
qed

lemma Write_wf: "xof_wf e \<Longrightarrow> xof_wf (fst (Write P e p))"
proof -
  assume wf: "xof_wf e"
  obtain e' n r where w: "Write P e p = (e', n, r)" by (cases "Write P e p") auto
  from Write_cases[OF w] wf w show ?thesis by (simp add: xof_wf_def xof_inv_def)
qed

lemma run_calls_wf: "xof_wf e \<Longrightarrow> xof_wf (run_calls P e cs)"
proof (induction cs arbitrary: e)
  case Nil
  then show ?case by simp
next
  case (Cons c cs)
  show ?case
  proof (cases c)
    case (call_Write p)
    with Cons.IH[OF Write_wf[OF Cons.prems]] show ?thesis by simp
  next
    case (call_Read p)
    obtain e' p' nn err where rd: "Read P e p = (e', p', nn, err)"
      by (cases "Read P e p") auto
    from Read_wf[OF Cons.prems rd] have "xof_wf e'" by simp
    from Cons.IH[OF this] rd call_Read show ?thesis by simp
  qed
qed

lemma NewXOF_wf: "NewXOF P s c = (s', Inr e) \<Longrightarrow> xof_wf e"
  by (auto simp: NewXOF_def xof_wf_def xof_inv_def output_config_def outSize_def UnknownSize_def
      blake2s_Size_def Let_def split: prod.splits sum.splits)

section \<open>The claims\<close>

subsection \<open>C1: generating the next block\<close>

text \<open>
  C1. Take an engine in the reading phase (the root digest \<open>d\<close> is set) whose buffer
  is exhausted (\<open>px\<close> is 32) and which has bytes left to deliver, and let the collaborator
  accept the output-block config. Then the refill sets the config's size to \<open>left\<close> when
  \<open>left < 32\<close>, makes a fresh hash \<open>h\<close> from that config, writes the root digest
  \<open>d\<close> and nothing else to it, stores its digest over the start of the buffer (the whole
  buffer for a digest of 32 bytes), sets \<open>px\<close> to 0 and adds exactly 1 to the config's
  \<open>NodeOffset\<close>. A \<open>Read\<close> of one byte does this refill and then serves the byte at
  position 0, so it leaves \<open>px\<close> at 1 and \<open>left\<close> one smaller.
\<close>

theorem Read_generates_block:
  assumes "h0 e = Some d" and "px e = blake2s_Size" and "0 < left e"
    and "bTree (oc e) = Some t"
    and "blake2s_New P (if left e < 32 then (oc e)\<lparr>bSize := word_of_int (left e)\<rparr> else oc e)
           = Inr h"
  shows "let oc1 = (if left e < 32 then (oc e)\<lparr>bSize := word_of_int (left e)\<rparr> else oc e);
             dg = hash_Sum P (fst (hash_Write P h d));
             blk = sum_into (xbuf e) dg;
             e1 = e\<lparr>oc := oc1\<lparr>bTree := Some (t\<lparr>NodeOffset := NodeOffset t + 1\<rparr>)\<rparr>,
                    xbuf := blk, px := 0\<rparr>
         in refill P e = (e1, None) \<and>
            Read P e [b] = (e1\<lparr>px := 1, left := left e - 1\<rparr>, [blk ! 0], 1, None) \<and>
            (int (length dg) \<le> blake2s_Size \<longrightarrow> blk = dg @ drop (length dg) (xbuf e))"
proof -
  let ?oc1 = "if left e < 32 then (oc e)\<lparr>bSize := word_of_int (left e)\<rparr> else oc e"
  let ?dg = "hash_Sum P (fst (hash_Write P h d))"
  let ?blk = "sum_into (xbuf e) ?dg"
  let ?e1 = "e\<lparr>oc := ?oc1\<lparr>bTree := Some (t\<lparr>NodeOffset := NodeOffset t + 1\<rparr>)\<rparr>,
                xbuf := ?blk, px := 0\<rparr>"
  have rf: "refill P e = (?e1, None)"
    using assms by (auto simp: refill_def Let_def blake2s_Size_def bytes_of_def)
  have l1: "left ?e1 = left e" by simp
  have rd: "Read P e [b] = (?e1\<lparr>px := 1, left := left e - 1\<rparr>, [?blk ! 0], 1, None)"
    using assms(1,2,3) rf
    by (simp add: Read_def Let_def read_loop.simps[of P e] read_loop.simps[of _ _ _ "Suc 0"]
        blake2s_Size_def)
  have "int (length ?dg) \<le> blake2s_Size \<longrightarrow> ?blk = ?dg @ drop (length ?dg) (xbuf e)"
    by (simp add: sum_into_def)
  with rf rd show ?thesis by (simp add: Let_def)
qed

theorem Read_generates_block_witness:
  "px (fst (Read test_hash (fst (Read test_hash (test_engine 3) [])) [0])) = 1 \<and>
   left (fst (Read test_hash (fst (Read test_hash (test_engine 3) [])) [0])) = 2 \<and>
   bSize (oc (fst (Read test_hash (fst (Read test_hash (test_engine 3) [])) [0]))) = 3 \<and>
   map_option NodeOffset (bTree (oc (fst (Read test_hash (fst (Read test_hash (test_engine 3) [])) [0]))))
     = Some (push_bit 32 3 + 1)"
proof -
  let ?E = "fst (Read test_hash (test_engine 3) [])"
  let ?T = "\<lparr>Fanout = 0, MaxDepth = 0, LeafSize = 32, NodeOffset = push_bit 32 3,
             NodeDepth = 0, InnerHashSize = 32, IsLastNode = False\<rparr>"
  have "h0 ?E \<noteq> None" by code_simp
  then obtain d where d: "h0 ?E = Some d" by auto
  have px: "px ?E = blake2s_Size" by code_simp
  have l3: "left ?E = 3" by code_simp
  then have lf: "0 < left ?E" by simp
  have tr: "bTree (oc ?E) = Some ?T" by code_simp
  have "case blake2s_New test_hash (if left ?E < 32 then (oc ?E)\<lparr>bSize := word_of_int (left ?E)\<rparr> else oc ?E)
          of Inl err \<Rightarrow> False | Inr h \<Rightarrow> True" by code_simp
  then obtain h where nw:
    "blake2s_New test_hash (if left ?E < 32 then (oc ?E)\<lparr>bSize := word_of_int (left ?E)\<rparr> else oc ?E) = Inr h"
    by (auto split: sum.splits)
  from Read_generates_block[OF d px lf tr nw, of 0] show ?thesis
    by (simp add: Let_def l3)
qed

subsection \<open>C2: the root hash and the initial state\<close>

text \<open>
  C2. The effective length \<open>L\<close> is the declared size, or 65535 when that is 0. The
  root hash is made from the config with size 32, the caller's key, salt and person, and the
  caller's tree (fanout 1 and depth 1 when the pointer is nil) with \<open>L << 32\<close> added to
  its \<open>NodeOffset\<close> in 64-bit arithmetic. When the collaborator refuses that config,
  \<open>NewXOF\<close> returns its error; otherwise it returns an engine around the new hash with
  \<open>px = 32\<close>, \<open>left = L\<close> and no root digest yet.
\<close>

theorem NewXOF_root_config:
  assumes "NewXOF P s c = (s', r)"
  shows "let L = (if Size c = 0 then 65535 else uint (Size c));
             t0 = (case Tree c of
                     None \<Rightarrow> \<lparr>Fanout = 1, MaxDepth = 1, LeafSize = 0, NodeOffset = 0,
                               NodeDepth = 0, InnerHashSize = 0, IsLastNode = False\<rparr>
                   | Some a \<Rightarrow> s a);
             rc = \<lparr>bSize = 32, bKey = Key c, bSalt = Salt c, bPerson = Person c,
                   bTree = Some (t0\<lparr>NodeOffset := NodeOffset t0 + push_bit 32 (word_of_int L)\<rparr>)\<rparr>
         in case blake2s_New P rc of
              Inl err \<Rightarrow> r = Inl (blake2s_error err)
            | Inr h \<Rightarrow> (\<exists>e. r = Inr e \<and> rh e = h \<and> px e = 32 \<and> left e = L \<and> h0 e = None)"
  using assms
  by (auto simp: NewXOF_def root_tree_def outSize_def encoded_length_def UnknownSize_def
      blake2s_Size_def Let_def uint_0_iff split: prod.splits sum.splits option.splits)


theorem NewXOF_root_config_witness:
  "\<exists>e. snd (NewXOF test_hash test_store (test_config 0 (Some 0))) = Inr e \<and>
        px e = 32 \<and> left e = 65535 \<and> h0 e = None"
  using NewXOF_root_config[of test_hash test_store "test_config 0 (Some 0)"
      "fst (NewXOF test_hash test_store (test_config 0 (Some 0)))"
      "snd (NewXOF test_hash test_store (test_config 0 (Some 0)))"]
  by (auto simp add: Let_def test_hash_def test_config_def)

subsection \<open>C3: the output-block config\<close>

text \<open>
  C3. The output-block config of a new engine has the caller's salt and person, and a tree
  with fanout 0, depth 0, leaf size 32, inner hash size 32, node depth 0, the last-node flag
  off and \<open>NodeOffset = L << 32\<close>; this is the value that was added to the root's
  \<open>NodeOffset\<close>. \<open>UnknownSize\<close> is \<open>2^16 - 1 = 65535\<close>.
\<close>

theorem NewXOF_output_config:
  assumes "NewXOF P s c = (s', Inr e)"
  shows "bSalt (oc e) = Salt c \<and> bPerson (oc e) = Person c \<and>
         bTree (oc e) =
           Some \<lparr>Fanout = 0, MaxDepth = 0, LeafSize = 32,
                 NodeOffset = push_bit 32 (word_of_int (if Size c = 0 then 65535 else uint (Size c))),
                 NodeDepth = 0, InnerHashSize = 32, IsLastNode = False\<rparr> \<and>
         NodeOffset (snd (root_tree s c)) =
           (case Tree c of None \<Rightarrow> 0 | Some a \<Rightarrow> NodeOffset (s a)) +
           push_bit 32 (word_of_int (if Size c = 0 then 65535 else uint (Size c))) \<and>
         UnknownSize = 2 ^ 16 - 1 \<and> UnknownSize = 65535"
  using assms
  by (auto simp: NewXOF_def root_tree_def output_config_def outSize_def encoded_length_def
      UnknownSize_def blake2s_Size_def Let_def uint_0_iff split: prod.splits sum.splits option.splits)


theorem NewXOF_output_config_witness:
  "\<exists>e. snd (NewXOF test_hash test_store (test_config 3 None)) = Inr e \<and>
        bSalt (oc e) = [1] \<and> bPerson (oc e) = [2] \<and>
        bTree (oc e) = Some \<lparr>Fanout = 0, MaxDepth = 0, LeafSize = 32, NodeOffset = 12884901888,
                              NodeDepth = 0, InnerHashSize = 32, IsLastNode = False\<rparr>"
proof -
  have "case snd (NewXOF test_hash test_store (test_config 3 None)) of
          Inl err \<Rightarrow> False | Inr e \<Rightarrow> True" by code_simp
  then obtain e where e: "snd (NewXOF test_hash test_store (test_config 3 None)) = Inr e"
    by (auto split: sum.splits)
  then have "NewXOF test_hash test_store (test_config 3 None) =
      (fst (NewXOF test_hash test_store (test_config 3 None)), Inr e)"
    by (metis prod.collapse)
  from NewXOF_output_config[OF this] e show ?thesis
    by (simp add: test_config_def)
qed

subsection \<open>C4: prefixes\<close>

text \<open>
  C4 says that for two different finite declared sizes the shorter output is never a prefix
  of the longer one. That fails: for the declared sizes 1 and 2, the message
  \<^verbatim>\<open>"abc"\<close> and the collaborator \<open>weak_hash\<close>, the one byte of the first output is
  the first byte of the second. The engine hands different parameters to the collaborator
  for different declared sizes; that the outputs then differ is a property of the
  collaborator, not of the engine.
\<close>

theorem finite_sizes_prefix_counterexample:
  "output_bytes (xof_run weak_hash test_store (test_config 1 None) [97, 98, 99] 1) = [144] \<and>
   output_bytes (xof_run weak_hash test_store (test_config 2 None) [97, 98, 99] 2) = [144, 145] \<and>
   prefix (output_bytes (xof_run weak_hash test_store (test_config 1 None) [97, 98, 99] 1))
          (output_bytes (xof_run weak_hash test_store (test_config 2 None) [97, 98, 99] 2))"
  by code_simp

text \<open>
  C4, amended. Two instances with the same configuration value (so the same declared size,
  in particular both the unknown size) and the same message: what a read of \<open>N\<close>
  bytes delivers from one is a prefix of what a read of \<open>M \<ge> N\<close> bytes delivers
  from the other. Two configurations with different declared sizes, both finite, and the same
  tree: the \<open>NodeOffset\<close> the root hash is made with differs, and so does the tree of
  the output-block config.
\<close>

theorem prefix_law:
  "(config_value sa ca = config_value sb cb \<and> N \<le> M \<longrightarrow>
      prefix (output_bytes (xof_run P sa ca msg N)) (output_bytes (xof_run P sb cb msg M))) \<and>
   (Size c \<noteq> 0 \<and> Size c' \<noteq> 0 \<and> Size c \<noteq> Size c' \<and>
    map_option s (Tree c) = map_option s (Tree c') \<longrightarrow>
      NodeOffset (snd (root_tree s c)) \<noteq> NodeOffset (snd (root_tree s c')) \<and>
      bTree (output_config c) \<noteq> bTree (output_config c'))"
proof -
  have a: "prefix (output_bytes (xof_run P sa ca msg N)) (output_bytes (xof_run P sb cb msg M))"
    if "config_value sa ca = config_value sb cb" "N \<le> M"
  proof (cases "snd (NewXOF P sb cb)")
    case (Inl err)
    with NewXOF_value[OF that(1), of P] show ?thesis by (simp add: output_bytes_xof_run)
  next
    case (Inr e)
    with NewXOF_value[OF that(1), of P] emit_prefix[OF that(2)] show ?thesis
      by (simp add: output_bytes_xof_run)
  qed
  have b: "NodeOffset (snd (root_tree s c)) \<noteq> NodeOffset (snd (root_tree s c')) \<and>
      bTree (output_config c) \<noteq> bTree (output_config c')"
    if sz: "Size c \<noteq> 0" "Size c' \<noteq> 0" "Size c \<noteq> Size c'"
      and tr: "map_option s (Tree c) = map_option s (Tree c')"
  proof -
    have "uint (Size c) \<noteq> uint (Size c')"
      using sz(3) word_uint_eq_iff by blast
    then have "outSize c \<noteq> outSize c'"
      using sz(1,2) by (simp add: outSize_def uint_0_iff)
    then have ne: "encoded_length c \<noteq> encoded_length c'"
      using encoded_length_inj by blast
    have "NodeOffset (snd (root_tree s c)) \<noteq> NodeOffset (snd (root_tree s c'))"
      using ne tr by (auto simp: root_tree_def Let_def split: option.splits)
    moreover have "bTree (output_config c) \<noteq> bTree (output_config c')"
      using ne by (simp add: output_config_def)
    ultimately show ?thesis by simp
  qed
  from a b show ?thesis by blast
qed

theorem prefix_law_witness:
  "prefix (output_bytes (xof_run test_hash test_store (test_config 0 None) [97] 2))
          (output_bytes (xof_run test_hash test_store (test_config 0 None) [97] 5)) \<and>
   NodeOffset (snd (root_tree test_store (test_config 1 None))) \<noteq>
   NodeOffset (snd (root_tree test_store (test_config 2 None)))"
  using prefix_law[where sa = test_store and ca = "test_config 0 None" and sb = test_store
      and cb = "test_config 0 None" and N = 2 and M = 5 and P = test_hash and msg = "[97]"]
    prefix_law[where c = "test_config 1 None" and c' = "test_config 2 None" and s = test_store]
  by (simp add: test_config_def)

subsection \<open>C5: no write after a read\<close>

text \<open>
  C5. After a \<open>Read\<close> (of an engine whose root digest is not empty, as it is for a
  collaborator that returns the 32 bytes asked for), and after any further calls \<open>cs\<close>,
  \<open>Write\<close> returns 0 and the error \<^verbatim>\<open>blake2xs: cannot write after reading\<close>, and
  leaves the engine as it is; the root hash is the one the \<open>Read\<close> left. Before any
  \<open>Read\<close>, that is for a new engine after any writes \<open>ws\<close>, there is no root
  digest, and \<open>Write\<close> passes the bytes to the root hash and returns what it returns.
\<close>

theorem Write_after_Read_fails:
  "(Read P e q = (ef, qf, nn, err) \<and> (hash_Sum P (rh e) \<noteq> [] \<or> h0 e \<noteq> None) \<longrightarrow>
      Write P (run_calls P ef cs) p =
        (run_calls P ef cs, 0, Some (errors_New ''blake2xs: cannot write after reading'')) \<and>
      rh (run_calls P ef cs) = rh ef) \<and>
   (NewXOF P s c = (s', Inr en) \<longrightarrow>
      (let ew = run_calls P en (map call_Write ws)
       in h0 ew = None \<and>
          Write P ew p = (case hash_Write P (rh ew) p of (h, r) \<Rightarrow> (ew\<lparr>rh := h\<rparr>, r))))"
proof -
  have after: "Write P (run_calls P ef cs) p =
        (run_calls P ef cs, 0, Some (errors_New ''blake2xs: cannot write after reading'')) \<and>
      rh (run_calls P ef cs) = rh ef"
    if rd: "Read P e q = (ef, qf, nn, err)" and ne: "hash_Sum P (rh e) \<noteq> [] \<or> h0 e \<noteq> None"
  proof -
    have "h0 ef \<noteq> None"
    proof (cases "h0 e")
      case None
      with Read_frame[OF rd] ne show ?thesis by (simp add: sum_nil_def)
    next
      case (Some d)
      with Read_frame[OF rd] show ?thesis by simp
    qed
    from run_calls_finalized[OF this, of P cs] show ?thesis
      by (simp add: Write_finalized)
  qed
  have before: "h0 (run_calls P en (map call_Write ws)) = None \<and>
      Write P (run_calls P en (map call_Write ws)) p =
        (case hash_Write P (rh (run_calls P en (map call_Write ws))) p of
           (h, r) \<Rightarrow> ((run_calls P en (map call_Write ws))\<lparr>rh := h\<rparr>, r))"
    if nx: "NewXOF P s c = (s', Inr en)"
  proof -
    from nx have "h0 en = None"
      by (auto simp: NewXOF_def Let_def split: prod.splits sum.splits)
    then have "h0 (run_calls P en (map call_Write ws)) = None" by (rule run_calls_writes)
    then show ?thesis by (simp add: Write_def)
  qed
  from after before show ?thesis by (simp add: Let_def)
qed

theorem Write_after_Read_fails_witness:
  "Write test_hash (run_calls test_hash (fst (Read test_hash (test_engine 3) [0]))
                      [call_Write [1], call_Read [0]]) [9] =
     (run_calls test_hash (fst (Read test_hash (test_engine 3) [0]))
        [call_Write [1], call_Read [0]], 0,
      Some (errors_New ''blake2xs: cannot write after reading'')) \<and>
   h0 (test_engine 3) = None"
proof -
  have ne: "hash_Sum test_hash (rh (test_engine 3)) \<noteq> [] \<or> h0 (test_engine 3) \<noteq> None"
    by code_simp
  have rd: "Read test_hash (test_engine 3) [0] =
      (fst (Read test_hash (test_engine 3) [0]), fst (snd (Read test_hash (test_engine 3) [0])),
       fst (snd (snd (Read test_hash (test_engine 3) [0]))),
       snd (snd (snd (Read test_hash (test_engine 3) [0]))))"
    by simp
  have "case snd (NewXOF test_hash test_store (test_config 3 None)) of
          Inl err \<Rightarrow> False | Inr e \<Rightarrow> True" by code_simp
  then obtain e0 where e0: "snd (NewXOF test_hash test_store (test_config 3 None)) = Inr e0"
    by (auto split: sum.splits)
  then have nx: "NewXOF test_hash test_store (test_config 3 None) =
      (fst (NewXOF test_hash test_store (test_config 3 None)), Inr e0)"
    by (metis prod.collapse)
  have te: "run_calls test_hash e0 (map call_Write [[97, 98, 99]]) = test_engine 3"
    using e0 by (simp add: test_engine_def)
  note inst = Write_after_Read_fails[where P = test_hash and e = "test_engine 3" and q = "[0]"
      and ef = "fst (Read test_hash (test_engine 3) [0])"
      and qf = "fst (snd (Read test_hash (test_engine 3) [0]))"
      and nn = "fst (snd (snd (Read test_hash (test_engine 3) [0])))"
      and err = "snd (snd (snd (Read test_hash (test_engine 3) [0])))"
      and cs = "[call_Write [1], call_Read [0]]" and p = "[9]" and s = test_store
      and c = "test_config 3 None" and ws = "[[97, 98, 99]]" and en = e0
      and s' = "fst (NewXOF test_hash test_store (test_config 3 None))"]
  from inst rd ne have after:
    "Write test_hash (run_calls test_hash (fst (Read test_hash (test_engine 3) [0]))
                      [call_Write [1], call_Read [0]]) [9] =
     (run_calls test_hash (fst (Read test_hash (test_engine 3) [0]))
        [call_Write [1], call_Read [0]], 0,
      Some (errors_New ''blake2xs: cannot write after reading''))"
    by blast
  from inst nx have "h0 (run_calls test_hash e0 (map call_Write [[97, 98, 99]])) = None"
    unfolding Let_def by blast
  then have "h0 (test_engine 3) = None" unfolding te .
  with after show ?thesis by blast
qed

subsection \<open>C6: short reads and the end of the stream\<close>

text \<open>
  C6. \<open>Read\<close> into a buffer of \<open>n\<close> bytes delivers \<open>nn \<le> n\<close> bytes, leaves the
  rest of the buffer as it was, and takes \<open>nn\<close> from \<open>left\<close>. It returns no error
  exactly when it filled the buffer, and \<^verbatim>\<open>io.EOF\<close> exactly when it delivered fewer
  than \<open>n\<close> bytes and \<open>left\<close> has reached 0. So a read of exactly the bytes left
  does not end in \<^verbatim>\<open>io.EOF\<close>, and once \<open>left\<close> is 0 every read into a buffer that
  is not empty delivers nothing and returns \<^verbatim>\<open>io.EOF\<close>.
\<close>

theorem Read_short_read_is_EOF:
  assumes "Read P e p = (e', p', nn, err)"
  shows "0 \<le> nn \<and> nat nn \<le> length p \<and> length p' = length p
       \<and> drop (nat nn) p' = drop (nat nn) p
       \<and> left e' = left e - nn
       \<and> (err = None \<longleftrightarrow> nat nn = length p)
       \<and> (err = Some io_EOF \<longleftrightarrow> nat nn < length p \<and> left e' = 0)
       \<and> (left e = int (length p) \<longrightarrow> err \<noteq> Some io_EOF \<and> (err = None \<longrightarrow> left e' = 0))
       \<and> (left e' = 0 \<longrightarrow> (\<forall>q. q \<noteq> [] \<longrightarrow> Read P e' q = (e', q, 0, Some io_EOF)))"
proof -
  from assms obtain bs where em: "emit P (finalize P e) (length p) = (e', bs, err)"
    and p': "p' = bs @ drop (length bs) p" and nn: "nn = int (length bs)"
    and len: "length bs \<le> length p"
    by (rule Read_cases)
  have lf: "left e' = left e - nn"
    using emit_left[OF em] nn by (simp add: finalize_fields)
  have full: "err = None \<longleftrightarrow> nat nn = length p"
    using emit_full_iff[OF em] nn by simp
  have eof: "err = Some io_EOF \<longleftrightarrow> nat nn < length p \<and> left e' = 0"
    using emit_EOF_iff[OF em] nn by simp
  have fin: "finalize P e' = e'" using em by (rule finalize_emit)
  have again: "Read P e' q = (e', q, 0, Some io_EOF)" if "left e' = 0" "q \<noteq> []" for q
  proof -
    from that(2) obtain k where "length q = Suc k" by (cases q) auto
    with that(1) fin show ?thesis by (simp add: Read_emit)
  qed
  have "0 \<le> nn" "nat nn \<le> length p" "length p' = length p" "drop (nat nn) p' = drop (nat nn) p"
    using nn len p' by simp_all
  moreover have "left e = int (length p) \<longrightarrow> err \<noteq> Some io_EOF \<and> (err = None \<longrightarrow> left e' = 0)"
    using lf full eof nn by auto
  ultimately show ?thesis using lf full eof again by blast
qed

theorem Read_short_read_is_EOF_witness:
  "snd (snd (Read test_hash (test_engine 3) [0, 0, 0, 0, 0])) = (3, Some io_EOF) \<and>
   left (fst (Read test_hash (test_engine 3) [0, 0, 0, 0, 0])) = 0 \<and>
   Read test_hash (fst (Read test_hash (test_engine 3) [0, 0, 0, 0, 0])) [0] =
     (fst (Read test_hash (test_engine 3) [0, 0, 0, 0, 0]), [0], 0, Some io_EOF)"
proof -
  have ev: "snd (snd (Read test_hash (test_engine 3) [0, 0, 0, 0, 0])) = (3, Some io_EOF)"
    by code_simp
  then obtain e' p' where
    rd: "Read test_hash (test_engine 3) [0, 0, 0, 0, 0] = (e', p', 3, Some io_EOF)"
    by (cases "Read test_hash (test_engine 3) [0, 0, 0, 0, 0]") auto
  from Read_short_read_is_EOF[OF rd] have "left e' = 0"
    and "Read test_hash e' [0] = (e', [0], 0, Some io_EOF)" by simp_all
  with rd show ?thesis by simp
qed

subsection \<open>C7: chunking\<close>

text \<open>
  C7. The bytes delivered by reads into the buffers \<open>ps\<close>, one after the other, are
  the bytes delivered by one read into a buffer as long as all of them together, from the
  same engine. This holds for every engine, every length and every split, also one with
  empty buffers or one that asks for more than is left.
\<close>

theorem Read_chunking_invariance:
  assumes "length q = length (concat ps)"
  shows "snd (read_chunks P e ps) = (case Read P e q of (e1, q1, nn, err) \<Rightarrow> take (nat nn) q1)"
proof -
  obtain e' out where rc: "read_chunks P e ps = (e', out)" by (cases "read_chunks P e ps") auto
  from read_chunks_emit[OF rc] obtain r where
    "emit P (finalize P e) (length q) = (if ps = [] then finalize P e else e', out, r)"
    using assms by auto
  then show ?thesis using rc by (simp add: Read_emit)
qed

theorem Read_chunking_invariance_witness:
  "snd (read_chunks test_hash (test_engine 40) [replicate 30 0, [], replicate 3 0, replicate 20 0]) =
     (case Read test_hash (test_engine 40) (replicate 53 0) of (e1, q1, nn, err) \<Rightarrow> take (nat nn) q1) \<and>
   length (snd (read_chunks test_hash (test_engine 40)
                  [replicate 30 0, [], replicate 3 0, replicate 20 0])) = 40"
proof -
  have len: "length (replicate 53 (0 :: byte)) =
      length (concat [replicate 30 (0 :: byte), [], replicate 3 0, replicate 20 0])"
    by simp
  have "length (snd (read_chunks test_hash (test_engine 40)
                  [replicate 30 0, [], replicate 3 0, replicate 20 0])) = 40"
    by code_simp
  with Read_chunking_invariance[OF len, of test_hash "test_engine 40"] show ?thesis by simp
qed

subsection \<open>C8: determinism\<close>

text \<open>
  C8. Construct, write, read: the result depends on the configuration value and the message
  only. Two runs whose configurations have the same fields and point to trees with the same
  contents give the same result, wherever the trees are in memory and whatever else memory
  holds; the value includes the contents of the tree at the time of the call. A
  construction from a configuration without a tree leaves the caller's memory as it is, so
  repeating the procedure with that configuration gives the same result again.
\<close>

theorem xof_run_deterministic:
  "(config_value sa ca = config_value sb cb \<longrightarrow>
      xof_run P sa ca msg n = xof_run P sb cb msg n) \<and>
   (Tree c = None \<longrightarrow> fst (NewXOF P s c) = s)"
proof -
  have "xof_run P sa ca msg n = xof_run P sb cb msg n"
    if "config_value sa ca = config_value sb cb"
    using NewXOF_value[OF that, of P] by (simp add: xof_run_def)
  moreover have "fst (NewXOF P s c) = s" if "Tree c = None"
    using that by (simp add: NewXOF_store)
  ultimately show ?thesis by blast
qed

theorem xof_run_deterministic_witness:
  "xof_run test_hash test_store (test_config 3 (Some 0)) [97] 3 =
   xof_run test_hash (test_store(1 := test_store 1\<lparr>Fanout := 9\<rparr>)) (test_config 3 (Some 7)) [97] 3 \<and>
   fst (NewXOF test_hash test_store (test_config 3 None)) = test_store"
proof -
  have "config_value test_store (test_config 3 (Some 0)) =
        config_value (test_store(1 := test_store 1\<lparr>Fanout := 9\<rparr>)) (test_config 3 (Some 7))"
    by (simp add: config_value_def test_config_def test_store_def)
  moreover have "Tree (test_config 3 None) = None" by (simp add: test_config_def)
  ultimately show ?thesis
    using xof_run_deterministic[where sa = test_store and ca = "test_config 3 (Some 0)"
        and sb = "test_store(1 := test_store 1\<lparr>Fanout := 9\<rparr>)"
        and cb = "test_config 3 (Some 7)" and P = test_hash and msg = "[97]" and n = 3
        and c = "test_config 3 None" and s = test_store]
    by blast
qed

subsection \<open>C9: the state invariant\<close>

text \<open>
  C9. \<open>0 \<le> px \<le> 32\<close> and \<open>0 \<le> left\<close> hold for a new engine and are kept by
  \<open>Write\<close> and \<open>Read\<close>; \<open>Write\<close> leaves \<open>left\<close> as it is and \<open>Read\<close> never
  makes it larger.
\<close>

theorem Write_Read_preserve_invariant:
  "(xof_inv e \<longrightarrow>
      xof_inv (fst (Write P e p)) \<and> left (fst (Write P e p)) = left e \<and>
      xof_inv (fst (Read P e p)) \<and> left (fst (Read P e p)) \<le> left e) \<and>
   (\<forall>s' e0. NewXOF P s c = (s', Inr e0) \<longrightarrow> xof_inv e0)"
proof -
  have w: "xof_inv (fst (Write P e p)) \<and> left (fst (Write P e p)) = left e" if "xof_inv e"
  proof -
    obtain e' n r where "Write P e p = (e', n, r)" by (cases "Write P e p") auto
    with Write_cases[OF this] that show ?thesis by (simp add: xof_inv_def)
  qed
  have r: "xof_inv (fst (Read P e p)) \<and> left (fst (Read P e p)) \<le> left e" if inv: "xof_inv e"
  proof -
    obtain e' p' nn err where rd: "Read P e p = (e', p', nn, err)"
      by (cases "Read P e p") auto
    then obtain bs where em: "emit P (finalize P e) (length p) = (e', bs, err)"
      and nn: "nn = int (length bs)"
      by (rule Read_cases)
    have "0 \<le> px e' \<and> px e' \<le> blake2s_Size"
      using emit_px[OF em] inv by (simp add: finalize_fields xof_inv_def)
    moreover have "0 \<le> left e'"
      using emit_left_nonneg[OF em] inv by (simp add: finalize_fields xof_inv_def)
    moreover have "left e' \<le> left e"
      using emit_left[OF em] by (simp add: finalize_fields)
    ultimately show ?thesis using rd by (simp add: xof_inv_def)
  qed
  have n: "xof_inv e0" if "NewXOF P s c = (s', Inr e0)" for s' e0
    using that
    by (auto simp: NewXOF_def xof_inv_def outSize_def UnknownSize_def blake2s_Size_def Let_def
        split: prod.splits sum.splits)
  from w r n show ?thesis by blast
qed

theorem Write_Read_preserve_invariant_witness:
  "xof_inv (test_engine 3) \<and>
   xof_inv (fst (Write test_hash (test_engine 3) [1])) \<and>
   xof_inv (fst (Read test_hash (test_engine 3) [0, 0])) \<and>
   left (fst (Read test_hash (test_engine 3) [0, 0])) \<le> left (test_engine 3)"
proof -
  have "xof_inv (test_engine 3)" by code_simp
  with Write_Read_preserve_invariant[where e = "test_engine 3" and P = test_hash and p = "[0, 0]"]
  Write_Read_preserve_invariant[where e = "test_engine 3" and P = test_hash and p = "[1]"]
  show ?thesis by simp
qed

subsection \<open>C10: the caller's tree\<close>

text \<open>
  C10. \<open>NewXOF\<close> copies the pointer to the caller's tree, not the tree, and adds the
  encoded length through it. For a configuration of declared size 1 whose tree has
  \<open>NodeOffset = 5\<close>, the caller's tree has \<open>NodeOffset = 5 + 2^32\<close> after the call,
  and \<open>5 + 2 * 2^32\<close> after a second call with the same configuration.
\<close>

theorem NewXOF_changes_caller_tree:
  "NodeOffset (test_store 0) = 5 \<and>
   NodeOffset (fst (NewXOF P test_store (test_config 1 (Some 0))) 0) = 5 + 4294967296 \<and>
   NodeOffset (fst (NewXOF P (fst (NewXOF P test_store (test_config 1 (Some 0))))
                      (test_config 1 (Some 0))) 0) = 5 + 2 * 4294967296"
  by (simp add: NewXOF_def root_tree_def encoded_length_def outSize_def Let_def
      test_store_def test_config_def split: prod.splits sum.splits)

section \<open>A further property: no panic\<close>

text \<open>
  X1. An engine built by \<open>NewXOF\<close>, after any sequence of \<open>Write\<close> and \<open>Read\<close>
  calls, never runs into a nil dereference or an index out of range in \<open>Read\<close>: the output
  config keeps its tree, and \<open>px\<close> stays a valid position after every refill check.
\<close>

theorem Read_never_panics:
  assumes "NewXOF P s c = (s', Inr en)"
    and "Read P (run_calls P en cs) p = (e', p', nn, err)"
  shows "err \<noteq> Some (runtime_panic m)"
  using Read_wf[OF run_calls_wf[OF NewXOF_wf[OF assms(1)]] assms(2)] by simp

theorem Read_never_panics_witness:
  "snd (snd (snd (Read test_hash (run_calls test_hash (test_engine 3) [call_Read [0, 0]])
      [0, 0]))) \<noteq> Some (runtime_panic ''index out of range'')"
proof -
  have "case snd (NewXOF test_hash test_store (test_config 3 None)) of
          Inl err \<Rightarrow> False | Inr e \<Rightarrow> True" by code_simp
  then obtain e0 where e0: "snd (NewXOF test_hash test_store (test_config 3 None)) = Inr e0"
    by (auto split: sum.splits)
  then have nx: "NewXOF test_hash test_store (test_config 3 None) =
      (fst (NewXOF test_hash test_store (test_config 3 None)), Inr e0)"
    by (metis prod.collapse)
  have te: "run_calls test_hash e0 [call_Write [97, 98, 99], call_Read [0, 0]] =
      run_calls test_hash (test_engine 3) [call_Read [0, 0]]"
    using e0 by (simp add: test_engine_def)
  obtain e' p' nn err where rd:
    "Read test_hash (run_calls test_hash e0 [call_Write [97, 98, 99], call_Read [0, 0]]) [0, 0] =
       (e', p', nn, err)"
    by (cases "Read test_hash (run_calls test_hash e0 [call_Write [97, 98, 99], call_Read [0, 0]])
                 [0, 0]") auto
  from Read_never_panics[OF nx rd] have "err \<noteq> Some (runtime_panic ''index out of range'')" .
  with rd show ?thesis unfolding te by simp
qed

end
